theory Spec2Isabelle
  imports Complex_Main
begin

section \<open>Characters and the string primitives of Python\<close>

text \<open>
  A text is a \<^typ>\<open>string\<close>; a character stands for the code point of the same number, so
  the texts covered are those whose code points are below 256, and \<open>length\<close> counts code
  points as \<open>len\<close> does. The three character classes are the ones Python 3 uses for
  \<^verbatim>\<open>\d\<close>, \<^verbatim>\<open>\w\<close> (on \<open>str\<close> patterns) and \<open>str.strip()\<close>, restricted to these code points.
\<close>

definition is_digit :: "char \<Rightarrow> bool" where
  "is_digit c = (let n = (of_char c :: nat) in 48 \<le> n \<and> n \<le> 57)"

definition is_word :: "char \<Rightarrow> bool" where
  "is_word c = (let n = (of_char c :: nat) in
     (48 \<le> n \<and> n \<le> 57) \<or> (65 \<le> n \<and> n \<le> 90) \<or> n = 95 \<or> (97 \<le> n \<and> n \<le> 122) \<or>
     n = 170 \<or> (178 \<le> n \<and> n \<le> 179) \<or> n = 181 \<or> (185 \<le> n \<and> n \<le> 186) \<or>
     (188 \<le> n \<and> n \<le> 190) \<or> (192 \<le> n \<and> n \<le> 214) \<or> (216 \<le> n \<and> n \<le> 246) \<or>
     (248 \<le> n \<and> n \<le> 255))"

definition is_space :: "char \<Rightarrow> bool" where
  "is_space c = (let n = (of_char c :: nat) in
     (9 \<le> n \<and> n \<le> 13) \<or> (28 \<le> n \<and> n \<le> 32) \<or> n = 133 \<or> n = 160)"

text \<open>\<open>s.strip()\<close>: whitespace removed at both ends.\<close>

definition py_strip :: "string \<Rightarrow> string" where
  "py_strip s = rev (dropWhile is_space (rev (dropWhile is_space s)))"

text \<open>\<open>s.split('\n')\<close>: the pieces between line feeds; never the empty list.\<close>

fun py_split :: "string \<Rightarrow> string list" where
  "py_split [] = [[]]"
| "py_split (c # cs) =
     (if c = CHR 0x0A then [] # py_split cs
      else (case py_split cs of [] \<Rightarrow> [[c]] | l # ls \<Rightarrow> (c # l) # ls))"

datatype error = IndexError | Failure string

text \<open>\<open>xs[i]\<close>: a negative index counts from the end, an index out of range raises.\<close>

definition py_index :: "'a list \<Rightarrow> int \<Rightarrow> error + 'a" where
  "py_index xs i =
     (if 0 \<le> i \<and> i < int (length xs) then Inr (xs ! nat i)
      else if i < 0 \<and> - int (length xs) \<le> i then Inr (xs ! nat (int (length xs) + i))
      else Inl IndexError)"

text \<open>Sequencing of two steps: an exception of the first one skips the second.\<close>

definition and_then :: "error + 'a \<Rightarrow> ('a \<Rightarrow> error + 'b) \<Rightarrow> error + 'b" where
  "and_then m f = (case m of Inl e \<Rightarrow> Inl e | Inr x \<Rightarrow> f x)"

section \<open>Regular expressions: the fragment the program uses\<close>

text \<open>
  The patterns of the program are built from \<^verbatim>\<open>\d\<close>, literal characters, the class
  \<^verbatim>\<open>[/-]\<close>, \<^verbatim>\<open>\b\<close>, concatenation, \<^verbatim>\<open>|\<close>, \<^verbatim>\<open>{m,n}\<close> and \<^verbatim>\<open>*\<close>. A matcher state is
  the character before the current position (none at the start of the text) and the
  text still to read. \<open>step r st\<close> lists the states in which a match of \<open>r\<close> begun in
  \<open>st\<close> can end, in the order in which the backtracking matcher of \<open>re\<close> tries them:
  the head of the list is the match it returns.
\<close>

datatype re =
    Digit
  | Lit char
  | OneOf "char list"
  | WordB
  | Seq re re
  | Alt re re
  | Rep nat nat re
  | Star re

type_synonym mstate = "char option \<times> string"

fun eat :: "(char \<Rightarrow> bool) \<Rightarrow> mstate \<Rightarrow> mstate list" where
  "eat P (p, []) = []"
| "eat P (p, c # cs) = (if P c then [(Some c, cs)] else [])"

text \<open>\<^verbatim>\<open>\b\<close> holds where exactly one of the two neighbours is a word character; the
  outside of the text counts as a non-word character.\<close>

fun at_boundary :: "mstate \<Rightarrow> bool" where
  "at_boundary (p, s) =
     ((case p of None \<Rightarrow> False | Some c \<Rightarrow> is_word c) \<noteq>
      (case s of [] \<Rightarrow> False | c # _ \<Rightarrow> is_word c))"

text \<open>Greedy repetition between \<open>lo\<close> and \<open>hi\<close> times: one more round is tried before
  stopping.\<close>

fun rep_greedy :: "(mstate \<Rightarrow> mstate list) \<Rightarrow> nat \<Rightarrow> nat \<Rightarrow> mstate \<Rightarrow> mstate list" where
  "rep_greedy f lo 0 st = (if lo = 0 then [st] else [])"
| "rep_greedy f lo (Suc hi) st =
     concat (map (rep_greedy f (lo - 1) hi) (f st)) @ (if lo = 0 then [st] else [])"

text \<open>The body of the one starred group of the program reads at least one character
  in each round, so a star makes at most as many rounds as characters are left.\<close>

primrec step :: "re \<Rightarrow> mstate \<Rightarrow> mstate list" where
  "step Digit st = eat is_digit st"
| "step (Lit c) st = eat (\<lambda>x. x = c) st"
| "step (OneOf cs) st = eat (\<lambda>x. x \<in> set cs) st"
| "step WordB st = (if at_boundary st then [st] else [])"
| "step (Seq a b) st = concat (map (step b) (step a st))"
| "step (Alt a b) st = step a st @ step b st"
| "step (Rep lo hi r) st = rep_greedy (step r) lo hi st"
| "step (Star r) st = rep_greedy (step r) 0 (length (snd st)) st"

text \<open>The match at one position: the number of characters of the first success.\<close>

definition match_at :: "re \<Rightarrow> char option \<Rightarrow> string \<Rightarrow> nat option" where
  "match_at r p s =
     (case step r (p, s) of [] \<Rightarrow> None | st # _ \<Rightarrow> Some (length s - length (snd st)))"

text \<open>
  \<open>re.findall\<close> for a pattern without groups (or with one group around all of it): the
  text is read from left to right; at a position outside the last match the pattern is
  tried, a match is emitted and the search goes on behind it, otherwise one character
  further. \<open>k\<close> is the number of characters of the last match still to pass. Every
  pattern of the program reads at least one character, so the rule of \<open>re\<close> for empty
  matches plays no part and is not modelled.
\<close>

fun scan :: "re \<Rightarrow> char option \<Rightarrow> nat \<Rightarrow> string \<Rightarrow> string list" where
  "scan r p k [] = []"
| "scan r p (Suc k) (c # cs) = scan r (Some c) k cs"
| "scan r p 0 (c # cs) =
     (case match_at r p (c # cs) of
        Some (Suc n) \<Rightarrow> take (Suc n) (c # cs) # scan r (Some c) n cs
      | _ \<Rightarrow> scan r (Some c) 0 cs)"

definition findall :: "re \<Rightarrow> string \<Rightarrow> string list" where
  "findall r text = scan r None 0 text"

section \<open>ocr\_engine.py\<close>

text \<open>\<^verbatim>\<open>r'\d{4}-\d{2}-\d{2}'\<close>\<close>

definition iso_date_pattern :: re where
  "iso_date_pattern =
     Seq (Rep 4 4 Digit) (Seq (Lit CHR ''-'') (Seq (Rep 2 2 Digit)
       (Seq (Lit CHR ''-'') (Rep 2 2 Digit))))"

text \<open>\<^verbatim>\<open>r'\d{2}[/-]\d{2}[/-]\d{2,4}'\<close>\<close>

definition dmy_date_pattern :: re where
  "dmy_date_pattern =
     Seq (Rep 2 2 Digit) (Seq (OneOf ''/-'') (Seq (Rep 2 2 Digit)
       (Seq (OneOf ''/-'') (Rep 2 4 Digit))))"

definition date_patterns :: "re list" where
  "date_patterns = [iso_date_pattern, dmy_date_pattern]"

text \<open>\<^verbatim>\<open>r'\b\d{1,3}(?:,\d{3})*\.\d{2}\b'\<close>\<close>

definition amount_pattern :: re where
  "amount_pattern =
     Seq WordB (Seq (Rep 1 3 Digit) (Seq (Star (Seq (Lit CHR '','') (Rep 3 3 Digit)))
       (Seq (Lit CHR ''.'') (Seq (Rep 2 2 Digit) WordB))))"

text \<open>
  \<open>pdfplumber\<close> is outside the program: \<open>open\<close> raises (with a message) or gives the
  pages, and \<open>extract_text\<close> of a page raises, or returns \<open>None\<close> or a string.
\<close>

type_synonym page = "string + string option"
type_synonym pdfplumber = "string \<Rightarrow> string + page list"

fun read_pages :: "page list \<Rightarrow> string \<Rightarrow> string + string" where
  "read_pages [] text = Inr text"
| "read_pages (pg # pgs) text =
     (case pg of
        Inl e \<Rightarrow> Inl e
      | Inr page_text \<Rightarrow>
          (case page_text of
             None \<Rightarrow> read_pages pgs text
           | Some t \<Rightarrow> if t \<noteq> [] then read_pages pgs (text @ t @ [CHR 0x0A])
                       else read_pages pgs text))"

definition extract_text_from_pdf :: "pdfplumber \<Rightarrow> string \<Rightarrow> error + string" where
  "extract_text_from_pdf pdf file_path =
     (case (case pdf file_path of Inl e \<Rightarrow> Inl e | Inr pages \<Rightarrow> read_pages pages [])
      of Inl e \<Rightarrow> Inl (Failure (''Failed to extract text from PDF: '' @ e))
       | Inr text \<Rightarrow> Inr text)"

definition extract_dates :: "string \<Rightarrow> string list" where
  "extract_dates text =
     foldl (\<lambda>dates pattern. dates @ findall pattern text) [] date_patterns"

definition extract_amounts :: "string \<Rightarrow> string list" where
  "extract_amounts text = findall amount_pattern text"

definition extract_vendor :: "string \<Rightarrow> error + string" where
  "extract_vendor text =
     (let lines = py_split (py_strip text) in
      if lines \<noteq> [] then
        and_then (py_index lines 0) (\<lambda>l.
          let vendor = py_strip l;
              vendor = (if length vendor > 100 then take 100 vendor @ ''...'' else vendor)
          in Inr vendor)
      else Inr ''Unknown Vendor'')"

section \<open>parsers.py\<close>

text \<open>The confidence is a float in the source; every value it takes is written here
  as the rational of the same decimal literal, and the sums \<open>0.5 + 0.25 + 0.25\<close> are
  exact in binary floating point.\<close>

record invoice_result =
  document_type :: string
  vendor :: string
  invoice_date :: "string option"
  total_amount :: string
  detected_amounts :: "string list"
  detected_dates :: "string list"
  confidence :: rat
  raw_text_length :: nat

definition calculate_confidence :: "string list \<Rightarrow> string list \<Rightarrow> rat" where
  "calculate_confidence dates amounts =
     (let score = 1 / 2;
          score = (if dates \<noteq> [] then score + 1 / 4 else score);
          score = (if amounts \<noteq> [] then score + 1 / 4 else score)
      in min score 1)"

definition InvoiceParser_parse :: "pdfplumber \<Rightarrow> string \<Rightarrow> error + invoice_result" where
  "InvoiceParser_parse pdf file_path =
     and_then (extract_text_from_pdf pdf file_path) (\<lambda>text.
     let dates = extract_dates text; amounts = extract_amounts text in
     and_then (extract_vendor text) (\<lambda>vendor_name.
     and_then (if dates \<noteq> [] then map_sum id Some (py_index dates 0) else Inr None) (\<lambda>date.
     and_then (if amounts \<noteq> [] then py_index amounts (- 1) else Inr ''0.00'') (\<lambda>amount.
       Inr \<lparr> document_type = ''invoice'',
             vendor = vendor_name,
             invoice_date = date,
             total_amount = amount,
             detected_amounts = amounts,
             detected_dates = dates,
             confidence = calculate_confidence dates amounts,
             raw_text_length = length text \<rparr>))))"

record receipt_result =
  receipt_document_type :: string
  merchant :: string
  purchase_date :: "string option"
  total :: string
  items_detected :: nat
  receipt_confidence :: rat

definition ReceiptParser_parse :: "pdfplumber \<Rightarrow> string \<Rightarrow> error + receipt_result" where
  "ReceiptParser_parse pdf file_path =
     and_then (extract_text_from_pdf pdf file_path) (\<lambda>text.
     let dates = extract_dates text; amounts = extract_amounts text in
     and_then (extract_vendor text) (\<lambda>vendor_name.
     and_then (if dates \<noteq> [] then map_sum id Some (py_index dates 0) else Inr None) (\<lambda>date.
     and_then (if amounts \<noteq> [] then py_index amounts (- 1) else Inr ''0.00'') (\<lambda>amount.
       Inr \<lparr> receipt_document_type = ''receipt'',
             merchant = vendor_name,
             purchase_date = date,
             total = amount,
             items_detected = length amounts,
             receipt_confidence = (if dates \<noteq> [] \<and> amounts \<noteq> [] then 4 / 5 else 1 / 2) \<rparr>))))"

section \<open>app.py\<close>

text \<open>\<^verbatim>\<open>r'(\d{4}-\d{2}-\d{2}|\d{2}[/-]\d{2}[/-]\d{2,4})'\<close>: one group around the whole
  pattern, so \<open>findall\<close> returns the whole matches.\<close>

definition app_date_pattern :: re where
  "app_date_pattern = Alt iso_date_pattern dmy_date_pattern"

text \<open>The dictionary \<open>data\<close> of \<open>analyze_invoice_data\<close>; the value under
  \<open>'invoice_date'\<close> is kept as an optional string, to be compared with the parsers'.\<close>

record invoice_data =
  data_vendor :: string
  data_invoice_date :: "string option"
  data_total_amount :: string

definition analyze_invoice_data :: "string \<Rightarrow> error + invoice_data" where
  "analyze_invoice_data text =
     (let dates = findall app_date_pattern text;
          amounts = findall amount_pattern text in
      and_then (if text \<noteq> [] then py_index (py_split text) 0 else Inr ''Unknown Vendor'')
        (\<lambda>vendor_name.
      and_then (if dates \<noteq> [] then py_index dates 0 else Inr ''Not detected'') (\<lambda>date.
      and_then (if amounts \<noteq> [] then py_index amounts (- 1) else Inr ''0.00'') (\<lambda>amount.
        Inr \<lparr> data_vendor = vendor_name,
              data_invoice_date = Some date,
              data_total_amount = amount \<rparr>))))"

section \<open>Documents used as examples\<close>

text \<open>A document without pages, a document that cannot be opened, and the invoice of
  scenario A of the specification (one page).\<close>

definition textless_pdf :: pdfplumber where
  "textless_pdf file_path = Inr []"

definition broken_pdf :: pdfplumber where
  "broken_pdf file_path = Inl ''No /Root object! - Is this really a PDF?''"

definition scenario_A :: string where
  "scenario_A = ''Acme Corp'' @ [CHR 0x0A] @ ''Invoice #123'' @ [CHR 0x0A] @
     ''Date: 2024-03-15'' @ [CHR 0x0A] @ ''Subtotal: 100.00'' @ [CHR 0x0A] @
     ''Total: 1,200.50''"

definition scenario_A_pdf :: pdfplumber where
  "scenario_A_pdf file_path = Inr [Inr (Some scenario_A)]"

text \<open>A document whose one page holds a single ISO date.\<close>

definition iso_only_pdf :: pdfplumber where
  "iso_only_pdf file_path = Inr [Inr (Some ''2024-03-15'')]"

section \<open>The shapes of the candidates, as the specification words them\<close>

text \<open>The character before the position reached after reading \<open>w\<close>.\<close>

definition prev_of :: "char option \<Rightarrow> string \<Rightarrow> char option" where
  "prev_of p w = (if w = [] then p else Some (last w))"

text \<open>Four digits, a hyphen, two digits, a hyphen, two digits.\<close>

definition is_iso_date :: "string \<Rightarrow> bool" where
  "is_iso_date d = (\<exists>y m dd. d = y @ ''-'' @ m @ ''-'' @ dd \<and>
     length y = 4 \<and> length m = 2 \<and> length dd = 2 \<and>
     list_all is_digit y \<and> list_all is_digit m \<and> list_all is_digit dd)"

text \<open>Two digits, a separator, two digits, a separator (the same or the other one),
  two to four digits.\<close>

definition is_dmy_date :: "string \<Rightarrow> bool" where
  "is_dmy_date d = (\<exists>a s1 b s2 c. d = a @ [s1] @ b @ [s2] @ c \<and>
     length a = 2 \<and> length b = 2 \<and> 2 \<le> length c \<and> length c \<le> 4 \<and>
     s1 \<in> set ''/-'' \<and> s2 \<in> set ''/-'' \<and>
     list_all is_digit a \<and> list_all is_digit b \<and> list_all is_digit c)"

text \<open>One to three leading digits, any number of groups of a comma and exactly three
  digits, a decimal point, exactly two digits.\<close>

definition is_amount_token :: "string \<Rightarrow> bool" where
  "is_amount_token t = (\<exists>lead groups frac.
     t = lead @ concat (map (\<lambda>g. CHR '','' # g) groups) @ ''.'' @ frac \<and>
     1 \<le> length lead \<and> length lead \<le> 3 \<and> list_all is_digit lead \<and>
     (\<forall>g\<in>set groups. length g = 3 \<and> list_all is_digit g) \<and>
     length frac = 2 \<and> list_all is_digit frac)"

section \<open>Python primitives and the parsers\<close>

lemma rep_greedy_numeral:
  "rep_greedy f lo (numeral k) st =
     concat (map (rep_greedy f (lo - 1) (pred_numeral k)) (f st)) @ (if lo = 0 then [st] else [])"
  by (simp add: numeral_eq_Suc)

lemma py_split_not_Nil: "py_split s \<noteq> []"
  by (induction s) (auto split: list.splits)

lemma hd_py_split: "hd (py_split s) = takeWhile (\<lambda>c. c \<noteq> CHR 0x0A) s"
  using py_split_not_Nil by (induction s) (auto split: list.splits)

lemma py_index_first: "xs \<noteq> [] \<Longrightarrow> py_index xs 0 = Inr (hd xs)"
  by (cases xs) (simp_all add: py_index_def)

lemma py_index_last: "xs \<noteq> [] \<Longrightarrow> py_index xs (- 1) = Inr (last xs)"
  by (cases xs) (simp_all add: py_index_def last_conv_nth nat_diff_distrib')

lemma extract_vendor_eq:
  "extract_vendor text =
     Inr (let v = py_strip (takeWhile (\<lambda>c. c \<noteq> CHR 0x0A) (py_strip text))
          in if 100 < length v then take 100 v @ ''...'' else v)"
  by (simp add: extract_vendor_def py_split_not_Nil py_index_first hd_py_split
      and_then_def Let_def)

lemma InvoiceParser_parse_text:
  assumes "extract_text_from_pdf pdf path = Inr text" and "extract_vendor text = Inr v"
  shows "InvoiceParser_parse pdf path =
     Inr \<lparr> document_type = ''invoice'', vendor = v,
           invoice_date = (if extract_dates text = [] then None
                           else Some (hd (extract_dates text))),
           total_amount = (if extract_amounts text = [] then ''0.00''
                           else last (extract_amounts text)),
           detected_amounts = extract_amounts text,
           detected_dates = extract_dates text,
           confidence = calculate_confidence (extract_dates text) (extract_amounts text),
           raw_text_length = length text \<rparr>"
  using assms
  by (simp add: InvoiceParser_parse_def and_then_def Let_def py_index_first py_index_last)

lemma ReceiptParser_parse_text:
  assumes "extract_text_from_pdf pdf path = Inr text" and "extract_vendor text = Inr v"
  shows "ReceiptParser_parse pdf path =
     Inr \<lparr> receipt_document_type = ''receipt'', merchant = v,
           purchase_date = (if extract_dates text = [] then None
                            else Some (hd (extract_dates text))),
           total = (if extract_amounts text = [] then ''0.00''
                    else last (extract_amounts text)),
           items_detected = length (extract_amounts text),
           receipt_confidence =
             (if extract_dates text \<noteq> [] \<and> extract_amounts text \<noteq> [] then 4 / 5 else 1 / 2) \<rparr>"
  using assms
  by (simp add: ReceiptParser_parse_def and_then_def Let_def py_index_first py_index_last)

lemma analyze_invoice_data_eq:
  "analyze_invoice_data text =
     Inr \<lparr> data_vendor = (if text = [] then ''Unknown Vendor''
                          else takeWhile (\<lambda>c. c \<noteq> CHR 0x0A) text),
           data_invoice_date =
             Some (if findall app_date_pattern text = [] then ''Not detected''
                   else hd (findall app_date_pattern text)),
           data_total_amount = (if findall amount_pattern text = [] then ''0.00''
                                else last (findall amount_pattern text)) \<rparr>"
  by (simp add: analyze_invoice_data_def and_then_def Let_def py_index_first py_index_last
      py_split_not_Nil hd_py_split)

lemma parse_Inl_iff:
  "InvoiceParser_parse pdf path = Inl e \<longleftrightarrow> extract_text_from_pdf pdf path = Inl e"
proof (cases "extract_text_from_pdf pdf path")
  case (Inl x)
  then show ?thesis by (simp add: InvoiceParser_parse_def and_then_def)
next
  case (Inr t)
  then show ?thesis
    using InvoiceParser_parse_text [OF Inr extract_vendor_eq] by simp
qed

lemma receipt_parse_Inl_iff:
  "ReceiptParser_parse pdf path = Inl e \<longleftrightarrow> extract_text_from_pdf pdf path = Inl e"
proof (cases "extract_text_from_pdf pdf path")
  case (Inl x)
  then show ?thesis by (simp add: ReceiptParser_parse_def and_then_def)
next
  case (Inr t)
  then show ?thesis
    using ReceiptParser_parse_text [OF Inr extract_vendor_eq] by simp
qed

lemma extract_text_error:
  "extract_text_from_pdf pdf path = Inl e \<Longrightarrow>
     \<exists>msg. e = Failure (''Failed to extract text from PDF: '' @ msg)"
  by (auto simp: extract_text_from_pdf_def split: sum.splits)

lemma textless_text: "extract_text_from_pdf textless_pdf path = Inr []"
  by (simp add: extract_text_from_pdf_def textless_pdf_def)

lemma scenario_A_text:
  "extract_text_from_pdf scenario_A_pdf path = Inr (scenario_A @ [CHR 0x0A])"
  by (simp add: extract_text_from_pdf_def scenario_A_pdf_def scenario_A_def)

lemmas eval_defs = findall_def match_at_def is_digit_def is_word_def is_space_def
  rep_greedy_numeral iso_date_pattern_def dmy_date_pattern_def amount_pattern_def
  app_date_pattern_def date_patterns_def extract_dates_def extract_amounts_def py_strip_def

lemma scenario_A_dates:
  "extract_dates (scenario_A @ [CHR 0x0A]) = [''2024-03-15'', ''24-03-15'']"
  by (simp add: scenario_A_def eval_defs)

lemma scenario_A_amounts:
  "extract_amounts (scenario_A @ [CHR 0x0A]) = [''100.00'', ''1,200.50'']"
  by (simp add: scenario_A_def eval_defs)

lemma scenario_A_vendor: "extract_vendor (scenario_A @ [CHR 0x0A]) = Inr ''Acme Corp''"
  by (simp add: extract_vendor_eq scenario_A_def eval_defs)

lemma findall_Nil: "findall r [] = []"
  by (simp add: findall_def)

lemma empty_dates: "extract_dates [] = []"
  by (simp add: eval_defs)

lemma empty_amounts: "extract_amounts [] = []"
  by (simp add: eval_defs)

section \<open>The matcher and \<open>findall\<close>\<close>

lemma prev_of_Nil [simp]: "prev_of p [] = p"
  by (simp add: prev_of_def)

lemma prev_of_Cons [simp]: "prev_of p (c # w) = prev_of (Some c) w"
  by (simp add: prev_of_def)

lemma prev_of_append: "prev_of p (u @ v) = prev_of (prev_of p u) v"
  by (simp add: prev_of_def)

lemma prev_of_snoc [simp]: "prev_of p (u @ [c]) = Some c"
  by (simp add: prev_of_def)

lemma eat_mem:
  "(p', s') \<in> set (eat P (p, s)) \<longleftrightarrow> (\<exists>c. s = c # s' \<and> P c \<and> p' = Some c)"
  by (cases s) auto

lemma step_Digit: "step Digit = eat is_digit"
  by (rule ext) simp

text \<open>Every state reached by a repetition is reached by reading a sequence of pieces,
  one for each round.\<close>

lemma rep_greedy_sound:
  assumes f: "\<And>p s p' s'. (p', s') \<in> set (f (p, s)) \<Longrightarrow>
                \<exists>g. s = g @ s' \<and> G g \<and> p' = prev_of p g"
  shows "(p', s') \<in> set (rep_greedy f lo hi (p, s)) \<Longrightarrow>
     \<exists>gs. s = concat gs @ s' \<and> lo \<le> length gs \<and> length gs \<le> hi \<and> (\<forall>g\<in>set gs. G g) \<and>
          p' = prev_of p (concat gs)"
proof (induction hi arbitrary: lo p s)
  case 0
  then have "s' = s" "p' = p" "lo = 0"
    by (auto split: if_splits)
  then show ?case
    by (intro exI [of _ "[]"]) simp
next
  case (Suc hi)
  from Suc.prems consider
      (more) p1 s1 where "(p1, s1) \<in> set (f (p, s))"
        "(p', s') \<in> set (rep_greedy f (lo - 1) hi (p1, s1))"
    | (stop) "lo = 0" "p' = p" "s' = s"
    by (auto split: if_splits)
  then show ?case
  proof cases
    case more
    from f [OF more(1)] obtain g where g: "s = g @ s1" "G g" "p1 = prev_of p g"
      by blast
    from Suc.IH [OF more(2)] obtain gs where
      gs: "s1 = concat gs @ s'" "lo - 1 \<le> length gs" "length gs \<le> hi" "\<forall>g\<in>set gs. G g"
          "p' = prev_of p1 (concat gs)"
      by blast
    show ?thesis
      by (rule exI [of _ "g # gs"]) (use g gs in \<open>auto simp: prev_of_append\<close>)
  next
    case stop
    then show ?thesis
      by (intro exI [of _ "[]"]) simp
  qed
qed

lemma rep_eat_sound:
  assumes "(p', s') \<in> set (rep_greedy (eat P) lo hi (p, s))"
  shows "\<exists>w. s = w @ s' \<and> lo \<le> length w \<and> length w \<le> hi \<and> list_all P w \<and>
             p' = prev_of p w"
proof -
  have "\<exists>g. s = g @ s' \<and> (length g = 1 \<and> list_all P g) \<and> p' = prev_of p g"
    if "(p', s') \<in> set (eat P (p, s))" for p s p' s'
    using that by (auto simp: eat_mem)
  from rep_greedy_sound [of "eat P" "\<lambda>g. length g = 1 \<and> list_all P g", OF this assms]
  obtain gs where gs: "s = concat gs @ s'" "lo \<le> length gs" "length gs \<le> hi"
    "\<forall>g\<in>set gs. length g = 1 \<and> list_all P g" "p' = prev_of p (concat gs)"
    by blast
  from gs(4) have "length (concat gs) = length gs" "list_all P (concat gs)"
    by (induction gs) auto
  with gs show ?thesis
    by (intro exI [of _ "concat gs"]) simp
qed

lemma iso_sound:
  assumes "(p', s') \<in> set (step iso_date_pattern (p, s))"
  shows "\<exists>w. s = w @ s' \<and> is_iso_date w"
proof -
  from assms obtain p1 s1 p2 s2 p3 s3 p4 s4 where
    a: "(p1, s1) \<in> set (rep_greedy (eat is_digit) 4 4 (p, s))" and
    b: "(p2, s2) \<in> set (eat (\<lambda>x. x = CHR ''-'') (p1, s1))" and
    c: "(p3, s3) \<in> set (rep_greedy (eat is_digit) 2 2 (p2, s2))" and
    d: "(p4, s4) \<in> set (eat (\<lambda>x. x = CHR ''-'') (p3, s3))" and
    e: "(p', s') \<in> set (rep_greedy (eat is_digit) 2 2 (p4, s4))"
    by (auto simp: iso_date_pattern_def step_Digit)
  from rep_eat_sound [OF a] obtain y where y: "s = y @ s1" "length y = 4" "list_all is_digit y"
    by auto
  from b have s1: "s1 = CHR ''-'' # s2"
    by (simp add: eat_mem)
  from rep_eat_sound [OF c] obtain m where m: "s2 = m @ s3" "length m = 2" "list_all is_digit m"
    by auto
  from d have s3: "s3 = CHR ''-'' # s4"
    by (simp add: eat_mem)
  from rep_eat_sound [OF e] obtain dd where
    dd: "s4 = dd @ s'" "length dd = 2" "list_all is_digit dd"
    by auto
  have "is_iso_date (y @ ''-'' @ m @ ''-'' @ dd)"
    unfolding is_iso_date_def using y m dd by blast
  moreover have "s = (y @ ''-'' @ m @ ''-'' @ dd) @ s'"
    using y s1 m s3 dd by simp
  ultimately show ?thesis by blast
qed

lemma dmy_sound:
  assumes "(p', s') \<in> set (step dmy_date_pattern (p, s))"
  shows "\<exists>w. s = w @ s' \<and> is_dmy_date w"
proof -
  from assms obtain p1 s1 p2 s2 p3 s3 p4 s4 where
    a: "(p1, s1) \<in> set (rep_greedy (eat is_digit) 2 2 (p, s))" and
    b: "(p2, s2) \<in> set (eat (\<lambda>x. x \<in> set ''/-'') (p1, s1))" and
    c: "(p3, s3) \<in> set (rep_greedy (eat is_digit) 2 2 (p2, s2))" and
    d: "(p4, s4) \<in> set (eat (\<lambda>x. x \<in> set ''/-'') (p3, s3))" and
    e: "(p', s') \<in> set (rep_greedy (eat is_digit) 2 4 (p4, s4))"
    by (auto simp: dmy_date_pattern_def step_Digit)
  from rep_eat_sound [OF a] obtain x where x: "s = x @ s1" "length x = 2" "list_all is_digit x"
    by auto
  from b obtain c1 where s1: "s1 = c1 # s2" "c1 \<in> set ''/-''"
    by (auto simp: eat_mem)
  from rep_eat_sound [OF c] obtain m where m: "s2 = m @ s3" "length m = 2" "list_all is_digit m"
    by auto
  from d obtain c2 where s3: "s3 = c2 # s4" "c2 \<in> set ''/-''"
    by (auto simp: eat_mem)
  from rep_eat_sound [OF e] obtain z where
    z: "s4 = z @ s'" "2 \<le> length z" "length z \<le> 4" "list_all is_digit z"
    by auto
  have "is_dmy_date (x @ [c1] @ m @ [c2] @ z)"
    unfolding is_dmy_date_def using x m z s1(2) s3(2) by blast
  moreover have "s = (x @ [c1] @ m @ [c2] @ z) @ s'"
    using x s1 m s3 z by simp
  ultimately show ?thesis by blast
qed


lemma digit_is_word: "is_digit c \<Longrightarrow> is_word c"
  by (simp add: is_digit_def is_word_def Let_def)

lemma group_sound:
  assumes "(p', s') \<in> set (step (Seq (Lit CHR '','') (Rep 3 3 Digit)) (p, s))"
  shows "\<exists>g. s = g @ s' \<and> (\<exists>d. g = CHR '','' # d \<and> length d = 3 \<and> list_all is_digit d) \<and>
             p' = prev_of p g"
proof -
  from assms obtain p1 s1 where
    a: "(p1, s1) \<in> set (eat (\<lambda>x. x = CHR '','') (p, s))" and
    b: "(p', s') \<in> set (rep_greedy (eat is_digit) 3 3 (p1, s1))"
    by (auto simp: step_Digit)
  from a have s: "s = CHR '','' # s1" "p1 = Some CHR '',''"
    by (auto simp: eat_mem)
  from rep_eat_sound [OF b] obtain d where
    d: "s1 = d @ s'" "length d = 3" "list_all is_digit d" "p' = prev_of p1 d"
    by auto
  show ?thesis
    by (rule exI [of _ "CHR '','' # d"]) (use s d in simp)
qed

lemma amount_sound:
  assumes "(p', s') \<in> set (step amount_pattern (p, s))"
  shows "\<exists>w. s = w @ s' \<and> is_amount_token w \<and>
             (case p of None \<Rightarrow> True | Some c \<Rightarrow> \<not> is_word c) \<and>
             (case s' of [] \<Rightarrow> True | c # _ \<Rightarrow> \<not> is_word c)"
proof -
  from assms obtain p1 s1 p2 s2 p3 s3 p4 where
    b0: "at_boundary (p, s)" and
    a: "(p1, s1) \<in> set (rep_greedy (eat is_digit) 1 3 (p, s))" and
    g: "(p2, s2) \<in> set (rep_greedy (step (Seq (Lit CHR '','') (Rep 3 3 Digit))) 0
                            (length s1) (p1, s1))" and
    dot: "(p3, s3) \<in> set (eat (\<lambda>x. x = CHR ''.'') (p2, s2))" and
    fr: "(p4, s') \<in> set (rep_greedy (eat is_digit) 2 2 (p3, s3))" and
    b1: "at_boundary (p4, s')"
    unfolding amount_pattern_def step.simps step_Digit
    by (auto split: if_splits)
  from rep_eat_sound [OF a] obtain lead where
    lead: "s = lead @ s1" "1 \<le> length lead" "length lead \<le> 3" "list_all is_digit lead"
    by auto
  from rep_greedy_sound [of _ "\<lambda>g. \<exists>d. g = CHR '','' # d \<and> length d = 3 \<and> list_all is_digit d",
      OF group_sound g]
  obtain gs where gs: "s1 = concat gs @ s2"
    "\<forall>g\<in>set gs. \<exists>d. g = CHR '','' # d \<and> length d = 3 \<and> list_all is_digit d"
    by blast
  from dot have s2: "s2 = CHR ''.'' # s3"
    by (simp add: eat_mem)
  from rep_eat_sound [OF fr] obtain frac where
    frac: "s3 = frac @ s'" "length frac = 2" "list_all is_digit frac" "p4 = prev_of p3 frac"
    by auto
  from gs(2) have groups: "concat gs = concat (map (\<lambda>g. CHR '','' # g) (map tl gs))"
    "\<forall>g\<in>set (map tl gs). length g = 3 \<and> list_all is_digit g"
    by (induction gs) auto
  have tok: "is_amount_token (lead @ concat gs @ ''.'' @ frac)"
    unfolding is_amount_token_def
    using lead(2-4) frac(2,3) groups by (intro exI [of _ lead] exI [of _ "map tl gs"]
        exI [of _ frac]) simp
  have whole: "s = (lead @ concat gs @ ''.'' @ frac) @ s'"
    using lead(1) gs(1) s2 frac(1) by simp
  obtain c cs where c: "lead = c # cs" "is_digit c"
    using lead(2,4) by (cases lead) auto
  with b0 lead(1) have before: "case p of None \<Rightarrow> True | Some c \<Rightarrow> \<not> is_word c"
    by (auto dest: digit_is_word split: option.splits)
  obtain x y where xy: "frac = [x, y]" "is_digit y"
    using frac(2,3) by (cases frac; cases "tl frac") auto
  with frac(4) have "p4 = Some y"
    by simp
  with b1 xy(2) have after: "case s' of [] \<Rightarrow> True | c # _ \<Rightarrow> \<not> is_word c"
    by (auto dest: digit_is_word split: list.splits)
  from whole tok before after show ?thesis
    by blast
qed

lemma match_at_SomeD:
  "match_at r p s = Some n \<Longrightarrow>
     \<exists>p' s'. (p', s') \<in> set (step r (p, s)) \<and> n = length s - length s'"
proof -
  assume "match_at r p s = Some n"
  then obtain st sts where "step r (p, s) = st # sts" "n = length s - length (snd st)"
    by (auto simp: match_at_def split: list.splits)
  then have "(fst st, snd st) \<in> set (step r (p, s))" "n = length s - length (snd st)"
    by simp_all
  then show ?thesis by blast
qed

lemma match_at_le: "match_at r p s = Some n \<Longrightarrow> n \<le> length s"
  by (auto dest: match_at_SomeD)

text \<open>Every string returned by \<open>findall\<close> lies in the text, and the pattern matches
  exactly it at its place.\<close>

lemma scan_mem:
  "m \<in> set (scan r p k s) \<Longrightarrow>
     \<exists>pre post. s = pre @ m @ post \<and> m \<noteq> [] \<and>
       match_at r (prev_of p pre) (m @ post) = Some (length m)"
proof (induction s arbitrary: p k)
  case Nil
  then show ?case by simp
next
  case (Cons c cs)
  have later: ?case if "m \<in> set (scan r (Some c) j cs)" for j
  proof -
    from Cons.IH [OF that] obtain pre post where
      "cs = pre @ m @ post" "m \<noteq> []"
      "match_at r (prev_of (Some c) pre) (m @ post) = Some (length m)"
      by blast
    then show ?thesis
      by (intro exI [of _ "c # pre"] exI [of _ post]) simp
  qed
  show ?case
  proof (cases k)
    case (Suc j)
    with Cons.prems show ?thesis
      by (intro later [of j]) simp
  next
    case 0
    show ?thesis
    proof (cases "match_at r p (c # cs)")
      case None
      with 0 Cons.prems show ?thesis
        by (intro later [of 0]) simp
    next
      case (Some n)
      show ?thesis
      proof (cases n)
        case 0
        with \<open>k = 0\<close> Some Cons.prems show ?thesis
          by (intro later [of 0]) simp
      next
        case (Suc j)
        with \<open>k = 0\<close> Some Cons.prems
        consider "m = take (Suc j) (c # cs)" | "m \<in> set (scan r (Some c) j cs)"
          by auto
        then show ?thesis
        proof cases
          case 1
          from match_at_le [OF Some] Suc have "Suc j \<le> length (c # cs)"
            by simp
          with 1 have "length m = Suc j" "m \<noteq> []"
            by auto
          moreover have "c # cs = [] @ m @ drop (Suc j) (c # cs)"
            using 1 by simp
          ultimately show ?thesis
            using Some Suc
            by (intro exI [of _ "[]"] exI [of _ "drop (Suc j) (c # cs)"])
              (simp del: take_Suc_Cons drop_Suc_Cons add: 1)
        next
          case 2
          then show ?thesis by (rule later)
        qed
      qed
    qed
  qed
qed

text \<open>A match anywhere in the text makes the result of \<open>findall\<close> non-empty.\<close>

lemma scan_complete:
  "match_at r (prev_of p pre) post = Some (Suc n) \<Longrightarrow> scan r p 0 (pre @ post) \<noteq> []"
proof (induction pre arbitrary: p)
  case Nil
  then have "post \<noteq> []"
    by (auto dest: match_at_le)
  then obtain c cs where "post = c # cs"
    by (cases post) auto
  with Nil show ?case by simp
next
  case (Cons c pre)
  from Cons.prems have "scan r (Some c) 0 (pre @ post) \<noteq> []"
    by (intro Cons.IH) simp
  then show ?case
    by (simp split: option.splits nat.splits)
qed

lemma is_dmy_date_length: "is_dmy_date w \<Longrightarrow> 8 \<le> length w"
  by (auto simp: is_dmy_date_def)

lemma is_iso_date_length: "is_iso_date w \<Longrightarrow> length w = 10"
  by (auto simp: is_iso_date_def)

lemma dmy_match_at:
  assumes "step dmy_date_pattern (q, s) \<noteq> []"
  shows "\<exists>n. match_at dmy_date_pattern q s = Some (Suc n)"
proof -
  from assms obtain p' s' sts where st: "step dmy_date_pattern (q, s) = (p', s') # sts"
    by (cases "step dmy_date_pattern (q, s)") auto
  then have "(p', s') \<in> set (step dmy_date_pattern (q, s))"
    by simp
  from dmy_sound [OF this] obtain w where "s = w @ s'" "is_dmy_date w"
    by blast
  then have "length s - length s' = Suc (length w - 1)"
    using is_dmy_date_length [of w] by simp
  with st show ?thesis
    by (simp add: match_at_def)
qed

text \<open>Two characters into a date of the ISO shape, the second date pattern matches.\<close>

lemma dmy_inside_iso:
  assumes "is_iso_date m"
  shows "\<exists>n. match_at dmy_date_pattern q (drop 2 m @ post) = Some (Suc n)"
proof -
  from assms obtain y mm dd where
    m: "m = y @ ''-'' @ mm @ ''-'' @ dd" "length y = 4" "length mm = 2" "length dd = 2"
       "list_all is_digit y" "list_all is_digit mm" "list_all is_digit dd"
    unfolding is_iso_date_def by blast
  from m(2) obtain y1 y2 y3 y4 where y: "y = [y1, y2, y3, y4]"
    by (auto simp: numeral_eq_Suc length_Suc_conv)
  from m(3) obtain m1 m2 where mm: "mm = [m1, m2]"
    by (auto simp: numeral_eq_Suc length_Suc_conv)
  from m(4) obtain d1 d2 where dd: "dd = [d1, d2]"
    by (auto simp: numeral_eq_Suc length_Suc_conv)
  have "step dmy_date_pattern (q, drop 2 m @ post) \<noteq> []"
    using m(5-7) by (simp add: m(1) y mm dd dmy_date_pattern_def rep_greedy_numeral)
  then show ?thesis
    by (rule dmy_match_at)
qed

lemma extract_dates_eq:
  "extract_dates text = findall iso_date_pattern text @ findall dmy_date_pattern text"
  by (simp add: extract_dates_def date_patterns_def)

lemma findall_shape:
  assumes sound: "\<And>p s p' s'. (p', s') \<in> set (step r (p, s)) \<Longrightarrow> \<exists>w. s = w @ s' \<and> Sh p w s'"
    and d: "d \<in> set (findall r text)"
  shows "\<exists>pre post. text = pre @ d @ post \<and> Sh (prev_of None pre) d post"
proof -
  from d obtain pre post where
    t: "text = pre @ d @ post" and
    m: "match_at r (prev_of None pre) (d @ post) = Some (length d)"
    unfolding findall_def by (blast dest: scan_mem)
  from match_at_SomeD [OF m] obtain p' s' where
    st: "(p', s') \<in> set (step r (prev_of None pre, d @ post))" and
    len: "length d = length (d @ post) - length s'"
    by blast
  from sound [OF st] obtain w where w: "d @ post = w @ s'" "Sh (prev_of None pre) w s'"
    by blast
  from w(1) have "length d + length post = length w + length s'"
    by (metis length_append)
  with len have "length d = length w"
    by simp
  with w(1) have "w = d" "s' = post"
    by simp_all
  with t w(2) show ?thesis
    by blast
qed

lemma findall_iso_shape:
  assumes "d \<in> set (findall iso_date_pattern text)"
  shows "\<exists>pre post. text = pre @ d @ post \<and> is_iso_date d"
proof (rule findall_shape [where r = iso_date_pattern and Sh = "\<lambda>p w s'. is_iso_date w"])
  show "\<exists>w. s = w @ s' \<and> is_iso_date w"
    if "(p', s') \<in> set (step iso_date_pattern (p, s))" for p s p' s'
    using that by (rule iso_sound)
  show "d \<in> set (findall iso_date_pattern text)"
    by fact
qed

lemma findall_dmy_shape:
  assumes "d \<in> set (findall dmy_date_pattern text)"
  shows "\<exists>pre post. text = pre @ d @ post \<and> is_dmy_date d"
proof (rule findall_shape [where r = dmy_date_pattern and Sh = "\<lambda>p w s'. is_dmy_date w"])
  show "\<exists>w. s = w @ s' \<and> is_dmy_date w"
    if "(p', s') \<in> set (step dmy_date_pattern (p, s))" for p s p' s'
    using that by (rule dmy_sound)
  show "d \<in> set (findall dmy_date_pattern text)"
    by fact
qed

lemma iso_only_text:
  "extract_text_from_pdf iso_only_pdf path = Inr (''2024-03-15'' @ [CHR 0x0A])"
  by (simp add: extract_text_from_pdf_def iso_only_pdf_def)

section \<open>The claims\<close>

text \<open>
  C1. The specification says that \<open>extract_vendor\<close> returns the sentinel
  \<open>"Unknown Vendor"\<close> for the empty text, and that analysing the empty text gives an
  invoice whose vendor is the sentinel. The code does not: \<open>"".strip().split('\n')\<close> is
  \<open>['']\<close>, a non-empty list, so the branch that returns the sentinel is never taken,
  and the vendor of the empty text is the empty string.
\<close>

theorem extract_vendor_empty_text:
  "extract_vendor [] = Inr [] \<and>
   map_sum id vendor (InvoiceParser_parse textless_pdf ''empty.pdf'') = Inr []"
  using InvoiceParser_parse_text [OF textless_text extract_vendor_eq, of "''empty.pdf''"]
  by (simp add: extract_vendor_eq py_strip_def)

text \<open>
  C2, as amended. For a text acquired from a document, the parsers put into the primary
  date field (\<open>invoice_date\<close>, \<open>purchase_date\<close>) the first element of the dates
  sequence, and \<open>None\<close> when the sequence is empty; \<open>analyze_invoice_data\<close> of app.py
  puts there the first date found, and the placeholder string \<open>"Not detected"\<close> when
  none is found.
\<close>

theorem primary_date_by_analyzer:
  assumes "extract_text_from_pdf pdf path = Inr text"
  shows "(\<exists>r. InvoiceParser_parse pdf path = Inr r \<and>
            invoice_date r = (case extract_dates text of [] \<Rightarrow> None | d # _ \<Rightarrow> Some d)) \<and>
         (\<exists>r. ReceiptParser_parse pdf path = Inr r \<and>
            purchase_date r = (case extract_dates text of [] \<Rightarrow> None | d # _ \<Rightarrow> Some d)) \<and>
         (\<exists>r. analyze_invoice_data text = Inr r \<and>
            data_invoice_date r =
              (case findall app_date_pattern text of [] \<Rightarrow> Some ''Not detected''
               | d # _ \<Rightarrow> Some d))"
proof (intro conjI)
  show "\<exists>r. InvoiceParser_parse pdf path = Inr r \<and>
          invoice_date r = (case extract_dates text of [] \<Rightarrow> None | d # _ \<Rightarrow> Some d)"
    using InvoiceParser_parse_text [OF assms extract_vendor_eq]
    by (simp split: list.splits)
  show "\<exists>r. ReceiptParser_parse pdf path = Inr r \<and>
          purchase_date r = (case extract_dates text of [] \<Rightarrow> None | d # _ \<Rightarrow> Some d)"
    using ReceiptParser_parse_text [OF assms extract_vendor_eq]
    by (simp split: list.splits)
  show "\<exists>r. analyze_invoice_data text = Inr r \<and>
          data_invoice_date r =
            (case findall app_date_pattern text of [] \<Rightarrow> Some ''Not detected''
             | d # _ \<Rightarrow> Some d)"
    by (simp add: analyze_invoice_data_eq split: list.splits)
qed

text \<open>The three cases at concrete inputs: scenario A, a document without text, the
  empty text.\<close>

theorem primary_date_by_analyzer_witness:
  "map_sum id invoice_date (InvoiceParser_parse scenario_A_pdf ''a.pdf'') = Inr (Some ''2024-03-15'') \<and>
   map_sum id purchase_date (ReceiptParser_parse textless_pdf ''b.pdf'') = Inr None \<and>
   map_sum id data_invoice_date (analyze_invoice_data []) = Inr (Some ''Not detected'')"
  using primary_date_by_analyzer [OF scenario_A_text, of "''a.pdf''"]
    primary_date_by_analyzer [OF textless_text, of "''b.pdf''"]
  by (auto simp: scenario_A_dates empty_dates findall_Nil)

text \<open>C2 as stated fails in app.py: the text \<open>"Acme Corp"\<close> holds no date, and the
  date field of its analysis is a placeholder string, not null.\<close>

theorem placeholder_date_counterexample:
  "findall app_date_pattern ''Acme Corp'' = [] \<and>
   analyze_invoice_data ''Acme Corp'' =
     Inr \<lparr> data_vendor = ''Acme Corp'', data_invoice_date = Some ''Not detected'',
           data_total_amount = ''0.00'' \<rparr>"
  by (simp add: analyze_invoice_data_eq eval_defs)

text \<open>
  C3. For every text acquired from a document, the primary amount field
  (\<open>total_amount\<close> of an invoice, \<open>total\<close> of a receipt) is the last element of the
  extracted amounts when there is one, and the literal \<open>"0.00"\<close> otherwise; it is
  always populated.
\<close>

theorem primary_amount_last_or_default:
  assumes "extract_text_from_pdf pdf path = Inr text"
  shows "(\<exists>r. InvoiceParser_parse pdf path = Inr r \<and>
            total_amount r = (if extract_amounts text = [] then ''0.00''
                              else last (extract_amounts text))) \<and>
         (\<exists>r. ReceiptParser_parse pdf path = Inr r \<and>
            total r = (if extract_amounts text = [] then ''0.00''
                       else last (extract_amounts text)))"
  using InvoiceParser_parse_text [OF assms extract_vendor_eq]
    ReceiptParser_parse_text [OF assms extract_vendor_eq]
  by simp

text \<open>Scenario A has the amounts 100.00 and 1,200.50; a document without text has
  none.\<close>

theorem primary_amount_last_or_default_witness:
  "map_sum id total_amount (InvoiceParser_parse scenario_A_pdf ''a.pdf'') = Inr ''1,200.50'' \<and>
   map_sum id total (ReceiptParser_parse textless_pdf ''b.pdf'') = Inr ''0.00''"
  using primary_amount_last_or_default [OF scenario_A_text, of "''a.pdf''"]
    primary_amount_last_or_default [OF textless_text, of "''b.pdf''"]
  by (auto simp: scenario_A_amounts empty_amounts)

text \<open>
  C4. For every pair of candidate lists, the invoice confidence is 0.5, plus 0.25 if
  there is a date, plus 0.25 if there is an amount, capped at 1.0; it lies between 0.5
  and 1.0, and it is the confidence of every invoice parsed.
\<close>

theorem invoice_confidence_formula:
  "calculate_confidence dates amounts =
     min (1 / 2 + (if dates \<noteq> [] then 1 / 4 else 0) + (if amounts \<noteq> [] then 1 / 4 else 0)) 1 \<and>
   1 / 2 \<le> calculate_confidence dates amounts \<and> calculate_confidence dates amounts \<le> 1 \<and>
   (extract_text_from_pdf pdf path = Inr text \<longrightarrow>
      (\<exists>r. InvoiceParser_parse pdf path = Inr r \<and>
         confidence r = calculate_confidence (extract_dates text) (extract_amounts text)))"
proof (intro conjI impI)
  show "calculate_confidence dates amounts =
     min (1 / 2 + (if dates \<noteq> [] then 1 / 4 else 0) + (if amounts \<noteq> [] then 1 / 4 else 0)) 1"
    by (simp add: calculate_confidence_def Let_def)
  show "1 / 2 \<le> calculate_confidence dates amounts"
    by (simp add: calculate_confidence_def Let_def)
  show "calculate_confidence dates amounts \<le> 1"
    by (simp add: calculate_confidence_def Let_def)
  show "\<exists>r. InvoiceParser_parse pdf path = Inr r \<and>
         confidence r = calculate_confidence (extract_dates text) (extract_amounts text)"
    if "extract_text_from_pdf pdf path = Inr text"
    using InvoiceParser_parse_text [OF that extract_vendor_eq] by simp
qed

text \<open>A date alone gives 0.75, scenario A gives 1.0, a document without text 0.5.\<close>

theorem invoice_confidence_formula_witness:
  "calculate_confidence [''2024-03-15''] [] = 3 / 4 \<and>
   map_sum id confidence (InvoiceParser_parse scenario_A_pdf ''a.pdf'') = Inr 1 \<and>
   map_sum id confidence (InvoiceParser_parse textless_pdf ''b.pdf'') = Inr (1 / 2)"
  using invoice_confidence_formula [of "[''2024-03-15'']" "[]" scenario_A_pdf "''a.pdf''"
      "scenario_A @ [CHR 0x0A]"]
    invoice_confidence_formula [of "[]" "[]" textless_pdf "''b.pdf''" "[]"]
  by (auto simp: scenario_A_text textless_text scenario_A_dates scenario_A_amounts
      empty_dates empty_amounts calculate_confidence_def)

text \<open>
  C5. For every text acquired from a document, the receipt confidence is 0.8 when both
  the dates and the amounts are non-empty and 0.5 otherwise; it takes no other value.
\<close>

theorem receipt_confidence_two_valued:
  assumes "extract_text_from_pdf pdf path = Inr text"
  shows "\<exists>r. ReceiptParser_parse pdf path = Inr r \<and>
           receipt_confidence r =
             (if extract_dates text \<noteq> [] \<and> extract_amounts text \<noteq> [] then 4 / 5 else 1 / 2) \<and>
           (receipt_confidence r = 1 / 2 \<or> receipt_confidence r = 4 / 5)"
  using ReceiptParser_parse_text [OF assms extract_vendor_eq] by simp

text \<open>Both values are taken: by scenario A and by a document without text.\<close>

theorem receipt_confidence_two_valued_witness:
  "map_sum id receipt_confidence (ReceiptParser_parse scenario_A_pdf ''a.pdf'') = Inr (4 / 5) \<and>
   map_sum id receipt_confidence (ReceiptParser_parse textless_pdf ''b.pdf'') = Inr (1 / 2)"
  using receipt_confidence_two_valued [OF scenario_A_text, of "''a.pdf''"]
    receipt_confidence_two_valued [OF textless_text, of "''b.pdf''"]
  by (auto simp: scenario_A_dates scenario_A_amounts empty_dates empty_amounts)

text \<open>
  C6. For every text, \<open>extract_dates\<close> returns the matches of the ISO pattern over
  the whole text followed by the matches of the second pattern over the whole text:
  the first entries of the result are the ISO matches, each of the shape of four
  digits, hyphen, two digits, hyphen, two digits, and the entries after them are the
  matches of the second shape, wherever the matches stand in the text.
\<close>

theorem extract_dates_iso_then_dmy:
  "extract_dates text = findall iso_date_pattern text @ findall dmy_date_pattern text \<and>
   (\<forall>i < length (findall iso_date_pattern text).
      extract_dates text ! i = findall iso_date_pattern text ! i \<and>
      is_iso_date (extract_dates text ! i)) \<and>
   (\<forall>j < length (findall dmy_date_pattern text).
      extract_dates text ! (length (findall iso_date_pattern text) + j) =
        findall dmy_date_pattern text ! j \<and>
      is_dmy_date (findall dmy_date_pattern text ! j))"
proof (intro conjI allI impI)
  show "extract_dates text = findall iso_date_pattern text @ findall dmy_date_pattern text"
    by (rule extract_dates_eq)
  show "extract_dates text ! i = findall iso_date_pattern text ! i"
    if "i < length (findall iso_date_pattern text)" for i
    using that by (simp add: extract_dates_eq nth_append)
  show "is_iso_date (extract_dates text ! i)"
    if "i < length (findall iso_date_pattern text)" for i
  proof -
    from that have "extract_dates text ! i \<in> set (findall iso_date_pattern text)"
      by (simp add: extract_dates_eq nth_append)
    then show ?thesis
      by (blast dest: findall_iso_shape)
  qed
  show "extract_dates text ! (length (findall iso_date_pattern text) + j) =
          findall dmy_date_pattern text ! j"
    if "j < length (findall dmy_date_pattern text)" for j
    by (simp add: extract_dates_eq)
  show "is_dmy_date (findall dmy_date_pattern text ! j)"
    if "j < length (findall dmy_date_pattern text)" for j
    using that by (blast dest: findall_dmy_shape nth_mem)
qed

text \<open>In \<open>"01/02/2003 2024-03-15"\<close> the ISO date stands last and is returned
  first.\<close>

theorem extract_dates_iso_then_dmy_witness:
  "extract_dates ''01/02/2003 2024-03-15'' = [''2024-03-15'', ''01/02/2003'', ''24-03-15''] \<and>
   is_iso_date ''2024-03-15'' \<and> is_dmy_date ''01/02/2003'' \<and> is_dmy_date ''24-03-15''"
proof -
  have a: "findall iso_date_pattern ''01/02/2003 2024-03-15'' = [''2024-03-15'']"
    by (simp add: eval_defs)
  have b: "findall dmy_date_pattern ''01/02/2003 2024-03-15'' = [''01/02/2003'', ''24-03-15'']"
    by (simp add: eval_defs)
  show ?thesis
    using extract_dates_iso_then_dmy [of "''01/02/2003 2024-03-15''"]
    by (auto simp add: a b All_less_Suc numeral_2_eq_2)
qed

text \<open>
  C7. For every text, every token returned by \<open>extract_amounts\<close> has one to three
  leading digits, any number of groups of a comma and exactly three digits, a decimal
  point and exactly two digits; and it stands in the text between token boundaries: the
  character before it, if any, and the character after it, if any, are not word
  characters, so neither is a digit and the token is no part of a longer run of digits.
\<close>

theorem extract_amounts_shape_and_boundaries:
  assumes "tok \<in> set (extract_amounts text)"
  shows "is_amount_token tok \<and>
         (\<exists>pre post. text = pre @ tok @ post \<and>
            (pre = [] \<or> \<not> is_word (last pre)) \<and> (post = [] \<or> \<not> is_word (hd post)) \<and>
            (pre = [] \<or> \<not> is_digit (last pre)) \<and> (post = [] \<or> \<not> is_digit (hd post)))"
proof -
  from assms have tok: "tok \<in> set (findall amount_pattern text)"
    by (simp add: extract_amounts_def)
  have "\<exists>pre post. text = pre @ tok @ post \<and>
          (is_amount_token tok \<and>
           (case prev_of None pre of None \<Rightarrow> True | Some c \<Rightarrow> \<not> is_word c) \<and>
           (case post of [] \<Rightarrow> True | c # _ \<Rightarrow> \<not> is_word c))"
  proof (rule findall_shape [where r = amount_pattern and
        Sh = "\<lambda>p w s'. is_amount_token w \<and>
                (case p of None \<Rightarrow> True | Some c \<Rightarrow> \<not> is_word c) \<and>
                (case s' of [] \<Rightarrow> True | c # _ \<Rightarrow> \<not> is_word c)"])
    show "\<exists>w. s = w @ s' \<and> (is_amount_token w \<and>
            (case p of None \<Rightarrow> True | Some c \<Rightarrow> \<not> is_word c) \<and>
            (case s' of [] \<Rightarrow> True | c # _ \<Rightarrow> \<not> is_word c))"
      if "(p', s') \<in> set (step amount_pattern (p, s))" for p s p' s'
      using amount_sound [OF that] by simp
    show "tok \<in> set (findall amount_pattern text)"
      by (rule tok)
  qed
  then obtain pre post where
    t: "text = pre @ tok @ post" "is_amount_token tok" and
    before: "case prev_of None pre of None \<Rightarrow> True | Some c \<Rightarrow> \<not> is_word c" and
    after: "case post of [] \<Rightarrow> True | c # _ \<Rightarrow> \<not> is_word c"
    by blast
  from before have b: "pre = [] \<or> \<not> is_word (last pre)"
    by (auto simp: prev_of_def split: if_splits)
  from after have a: "post = [] \<or> \<not> is_word (hd post)"
    by (cases post) auto
  from a b have "pre = [] \<or> \<not> is_digit (last pre)" "post = [] \<or> \<not> is_digit (hd post)"
    by (auto dest: digit_is_word)
  with t a b show ?thesis
    by blast
qed

text \<open>\<open>"12.345,678.90"\<close> yields the one token \<open>"345,678.90"\<close>, and
  \<open>"1234.56"\<close> yields none.\<close>

theorem extract_amounts_shape_and_boundaries_witness:
  "''345,678.90'' \<in> set (extract_amounts ''12.345,678.90'') \<and> is_amount_token ''345,678.90'' \<and>
   extract_amounts ''1234.56'' = []"
proof -
  have a: "extract_amounts ''12.345,678.90'' = [''345,678.90'']"
    by (simp add: eval_defs)
  have b: "''345,678.90'' \<in> set (extract_amounts ''12.345,678.90'')"
    by (simp add: a)
  have c: "extract_amounts ''1234.56'' = []"
    by (simp add: eval_defs)
  show ?thesis
    using extract_amounts_shape_and_boundaries [OF b] b c by simp
qed

text \<open>
  C8. When the stripped first line of the stripped text is longer than 100 characters,
  \<open>extract_vendor\<close> returns its first 100 characters followed by the three characters
  of the ellipsis, 103 characters in all; a line of at most 100 characters is returned
  as it is.
\<close>

theorem extract_vendor_truncation:
  "(let line = py_strip (takeWhile (\<lambda>c. c \<noteq> CHR 0x0A) (py_strip text)) in
     (100 < length line \<longrightarrow>
        extract_vendor text = Inr (take 100 line @ ''...'') \<and>
        length (take 100 line @ ''...'') = 103) \<and>
     (length line \<le> 100 \<longrightarrow> extract_vendor text = Inr line))"
  by (simp add: extract_vendor_eq Let_def)

text \<open>A line of 150 characters, and the first line of scenario A.\<close>

theorem extract_vendor_truncation_witness:
  "extract_vendor (replicate 150 (CHR ''A'')) = Inr (replicate 100 (CHR ''A'') @ ''...'') \<and>
   length (replicate 100 (CHR ''A'') @ ''...'') = 103 \<and>
   extract_vendor (scenario_A @ [CHR 0x0A]) = Inr ''Acme Corp''"
  using extract_vendor_truncation [of "replicate 150 (CHR ''A'')"]
    extract_vendor_truncation [of "scenario_A @ [CHR 0x0A]"]
  by (simp add: Let_def py_strip_def is_space_def scenario_A_def)

text \<open>
  C9. \<open>extract_dates\<close> and \<open>extract_amounts\<close> are total functions into lists, and
  \<open>extract_vendor\<close> never raises (its one indexing is always in range). A parse call
  raises exactly when the acquisition of the text raises, with the same exception, which
  is the failure built by \<open>extract_text_from_pdf\<close>; no result record is returned then.
\<close>

theorem extraction_never_fails:
  "(\<exists>v. extract_vendor text = Inr v) \<and>
   (InvoiceParser_parse pdf path = Inl e \<longleftrightarrow> extract_text_from_pdf pdf path = Inl e) \<and>
   (ReceiptParser_parse pdf path = Inl e \<longleftrightarrow> extract_text_from_pdf pdf path = Inl e) \<and>
   (extract_text_from_pdf pdf path = Inl e \<longrightarrow>
      (\<exists>msg. e = Failure (''Failed to extract text from PDF: '' @ msg)) \<and>
      (\<forall>r. InvoiceParser_parse pdf path \<noteq> Inr r) \<and>
      (\<forall>r. ReceiptParser_parse pdf path \<noteq> Inr r))"
proof (intro conjI impI)
  show "\<exists>v. extract_vendor text = Inr v"
    by (simp add: extract_vendor_eq)
  show "InvoiceParser_parse pdf path = Inl e \<longleftrightarrow> extract_text_from_pdf pdf path = Inl e"
    by (rule parse_Inl_iff)
  show "ReceiptParser_parse pdf path = Inl e \<longleftrightarrow> extract_text_from_pdf pdf path = Inl e"
    by (rule receipt_parse_Inl_iff)
  show "\<exists>msg. e = Failure (''Failed to extract text from PDF: '' @ msg)"
    if "extract_text_from_pdf pdf path = Inl e"
    using that by (rule extract_text_error)
  show "\<forall>r. InvoiceParser_parse pdf path \<noteq> Inr r"
    if "extract_text_from_pdf pdf path = Inl e"
    using that parse_Inl_iff [of pdf path e] by simp
  show "\<forall>r. ReceiptParser_parse pdf path \<noteq> Inr r"
    if "extract_text_from_pdf pdf path = Inl e"
    using that receipt_parse_Inl_iff [of pdf path e] by simp
qed

text \<open>A document that cannot be opened: both parsers raise the failure of the
  acquisition.\<close>

theorem extraction_never_fails_witness:
  "extract_text_from_pdf broken_pdf ''x.pdf'' =
     Inl (Failure ''Failed to extract text from PDF: No /Root object! - Is this really a PDF?'') \<and>
   InvoiceParser_parse broken_pdf ''x.pdf'' =
     Inl (Failure ''Failed to extract text from PDF: No /Root object! - Is this really a PDF?'') \<and>
   ReceiptParser_parse broken_pdf ''x.pdf'' =
     Inl (Failure ''Failed to extract text from PDF: No /Root object! - Is this really a PDF?'')"
proof -
  have h: "extract_text_from_pdf broken_pdf ''x.pdf'' =
     Inl (Failure ''Failed to extract text from PDF: No /Root object! - Is this really a PDF?'')"
    by (simp add: extract_text_from_pdf_def broken_pdf_def)
  show ?thesis
    using h extraction_never_fails [of "[]" broken_pdf "''x.pdf''"
        "Failure ''Failed to extract text from PDF: No /Root object! - Is this really a PDF?''"]
    by simp
qed

text \<open>
  C10. For every text in which the ISO pattern matches, the second date pattern matches
  too: two characters into every ISO match it has a match, so \<open>findall\<close> of the second
  pattern is not empty and \<open>extract_dates\<close> returns at least two candidates, all of
  which are the \<open>detected_dates\<close> of the invoice result.
\<close>

theorem iso_date_duplicated:
  assumes "findall iso_date_pattern text \<noteq> []"
  shows "findall dmy_date_pattern text \<noteq> [] \<and> 2 \<le> length (extract_dates text) \<and>
         (\<forall>m\<in>set (findall iso_date_pattern text). \<exists>pre post. text = pre @ m @ post \<and>
            (\<exists>n. match_at dmy_date_pattern (prev_of None (pre @ take 2 m)) (drop 2 m @ post) =
               Some (Suc n))) \<and>
         (extract_text_from_pdf pdf path = Inr text \<longrightarrow>
            (\<exists>r. InvoiceParser_parse pdf path = Inr r \<and> detected_dates r = extract_dates text))"
proof (intro conjI ballI impI)
  have inside: "\<exists>pre post. text = pre @ m @ post \<and>
            (\<exists>n. match_at dmy_date_pattern (prev_of None (pre @ take 2 m)) (drop 2 m @ post) =
               Some (Suc n))"
    if "m \<in> set (findall iso_date_pattern text)" for m
  proof -
    from findall_iso_shape [OF that] obtain pre post where
      "text = pre @ m @ post" "is_iso_date m"
      by blast
    with dmy_inside_iso [of m "prev_of None (pre @ take 2 m)" post] show ?thesis
      by blast
  qed
  then show "\<exists>pre post. text = pre @ m @ post \<and>
            (\<exists>n. match_at dmy_date_pattern (prev_of None (pre @ take 2 m)) (drop 2 m @ post) =
               Some (Suc n))"
    if "m \<in> set (findall iso_date_pattern text)" for m
    using that by blast
  from assms obtain m where "m \<in> set (findall iso_date_pattern text)"
    by (cases "findall iso_date_pattern text") auto
  from inside [OF this] obtain pre post n where
    t: "text = pre @ m @ post" and
    "match_at dmy_date_pattern (prev_of None (pre @ take 2 m)) (drop 2 m @ post) = Some (Suc n)"
    by blast
  from scan_complete [OF this(2)]
  have "scan dmy_date_pattern None 0 ((pre @ take 2 m) @ drop 2 m @ post) \<noteq> []" .
  moreover have "(pre @ take 2 m) @ drop 2 m @ post = text"
    unfolding t by (metis append_assoc append_take_drop_id)
  ultimately show dmy: "findall dmy_date_pattern text \<noteq> []"
    by (simp add: findall_def)
  from assms dmy show "2 \<le> length (extract_dates text)"
    by (cases "findall iso_date_pattern text"; cases "findall dmy_date_pattern text")
      (simp_all add: extract_dates_eq)
  show "\<exists>r. InvoiceParser_parse pdf path = Inr r \<and> detected_dates r = extract_dates text"
    if "extract_text_from_pdf pdf path = Inr text"
    using InvoiceParser_parse_text [OF that extract_vendor_eq] by simp
qed

text \<open>The text \<open>"2024-03-15"\<close> yields the ISO date and its tail \<open>"24-03-15"\<close>, and
  both are among the detected dates of the invoice parsed from it.\<close>

theorem iso_date_duplicated_witness:
  "extract_dates ''2024-03-15'' = [''2024-03-15'', ''24-03-15''] \<and>
   map_sum id detected_dates (InvoiceParser_parse iso_only_pdf ''d.pdf'') =
     Inr [''2024-03-15'', ''24-03-15'']"
proof -
  have a: "findall iso_date_pattern ''2024-03-15'' \<noteq> []"
    by (simp add: eval_defs)
  have b: "findall iso_date_pattern (''2024-03-15'' @ [CHR 0x0A]) \<noteq> []"
    by (simp add: eval_defs)
  have c: "extract_dates ''2024-03-15'' = [''2024-03-15'', ''24-03-15'']"
    by (simp add: eval_defs)
  have d: "extract_dates (''2024-03-15'' @ [CHR 0x0A]) = [''2024-03-15'', ''24-03-15'']"
    by (simp add: eval_defs)
  show ?thesis
    using iso_date_duplicated [OF a, of iso_only_pdf "''d.pdf''"]
      iso_date_duplicated [OF b, of iso_only_pdf "''d.pdf''"] iso_only_text [of "''d.pdf''"]
    by (auto simp: c d [simplified])
qed

end
